theory Spec2Isabelle
  imports Main
begin

section \<open>Python strings\<close>

text \<open>
  A Python \<open>str\<close> is a sequence of code points. The model keeps the code points below
  256 (the Latin-1 block), one \<open>char\<close> per code point, and writes out on that block the
  two tables of the interpreter that \<open>ner_extract.py\<close> relies on: the white space of
  \<open>str.split()\<close> and \<open>str.strip()\<close>, and the case mapping of \<open>str.lower()\<close>.
\<close>

definition isspace :: "char \<Rightarrow> bool" where
  "isspace c = (of_char c \<in> {9, 10, 11, 12, 13, 28, 29, 30, 31, 32, 133, 160 :: nat})"

definition lower_char :: "char \<Rightarrow> char" where
  "lower_char c =
     (let n = (of_char c :: nat)
      in if (65 \<le> n \<and> n \<le> 90) \<or> (192 \<le> n \<and> n \<le> 222 \<and> n \<noteq> 215)
         then char_of (n + 32) else c)"

definition py_lower :: "string \<Rightarrow> string" where
  "py_lower s = map lower_char s"

definition py_strip :: "string \<Rightarrow> string" where
  "py_strip s = rev (dropWhile isspace (rev (dropWhile isspace s)))"

text \<open>
  \<open>s.split()\<close> with no argument: skip a run of white space, take the characters up to
  the next white space as one token, and go on with the rest; no token is empty.
\<close>

function py_split :: "string \<Rightarrow> string list" where
  "py_split s =
     (case dropWhile isspace s of
        [] \<Rightarrow> []
      | c # cs \<Rightarrow>
          (c # takeWhile (\<lambda>x. \<not> isspace x) cs) # py_split (dropWhile (\<lambda>x. \<not> isspace x) cs))"
  by pat_completeness auto
termination
proof (relation "measure length")
  show "wf (measure length)" by simp
next
  fix s :: string and c cs
  assume a: "dropWhile isspace s = c # cs"
  have "length (dropWhile (\<lambda>x. \<not> isspace x) cs) \<le> length cs"
    by (rule length_dropWhile_le)
  also have "length cs < length (dropWhile isspace s)"
    using a by simp
  also have "\<dots> \<le> length s"
    by (rule length_dropWhile_le)
  finally show "(dropWhile (\<lambda>x. \<not> isspace x) cs, s) \<in> measure length"
    by simp
qed

declare py_split.simps [simp del]

text \<open>\<open>sep.join(xs)\<close>\<close>

fun py_join :: "string \<Rightarrow> string list \<Rightarrow> string" where
  "py_join sep [] = []"
| "py_join sep [x] = x"
| "py_join sep (x # y # ys) = x @ sep @ py_join sep (y # ys)"

section \<open>ner\_extract.py: the name normalizer\<close>

text \<open>\<^verbatim>\<open>return ' '.join(name.lower().strip().split())\<close>\<close>

definition normalize_name :: "string \<Rightarrow> string" where
  "normalize_name name = py_join '' '' (py_split (py_strip (py_lower name)))"


section \<open>Python values and exceptions\<close>

text \<open>
  The values that \<open>json.loads\<close> produces and \<open>json.dumps\<close> prints. A dict is the list
  of its items in insertion order, read with \<open>map_of\<close>. Numbers are kept in their integer
  case: no branch of the source tells a number from any other value that is neither a
  string nor a dict.
\<close>

datatype pyval =
    PNone
  | PBool bool
  | PInt int
  | PStr string
  | PList "pyval list"
  | PDict "(string \<times> pyval) list"

text \<open>An exception is a value; each carries the text that \<open>str(e)\<close> gives.\<close>

datatype error =
    AttributeError string
  | TypeError string
  | JSONDecodeError string
  | FileNotFoundError string
  | OtherError string

fun str_error :: "error \<Rightarrow> string" where
  "str_error (AttributeError m) = m"
| "str_error (TypeError m) = m"
| "str_error (JSONDecodeError m) = m"
| "str_error (FileNotFoundError m) = m"
| "str_error (OtherError m) = m"

fun type_name :: "pyval \<Rightarrow> string" where
  "type_name PNone = ''NoneType''"
| "type_name (PBool b) = ''bool''"
| "type_name (PInt n) = ''int''"
| "type_name (PStr s) = ''str''"
| "type_name (PList xs) = ''list''"
| "type_name (PDict kvs) = ''dict''"

definition quoted :: "string \<Rightarrow> string" where
  "quoted s = CHR 0x27 # s @ [CHR 0x27]"

definition no_attribute :: "pyval \<Rightarrow> string \<Rightarrow> error" where
  "no_attribute v a = AttributeError (quoted (type_name v) @ '' object has no attribute '' @ quoted a)"

text \<open>\<open>x.get(k, d)\<close>: only a dict has the method.\<close>

definition py_get :: "pyval \<Rightarrow> string \<Rightarrow> pyval \<Rightarrow> error + pyval" where
  "py_get x k d =
     (case x of
        PDict kvs \<Rightarrow> Inr (case map_of kvs k of None \<Rightarrow> d | Some v \<Rightarrow> v)
      | _ \<Rightarrow> Inl (no_attribute x ''get''))"

text \<open>
  \<open>for known in xs\<close>: a list gives its elements, a dict its keys, a string its characters;
  nothing else can be iterated.
\<close>

definition py_iter :: "pyval \<Rightarrow> error + pyval list" where
  "py_iter x =
     (case x of
        PList xs \<Rightarrow> Inr xs
      | PDict kvs \<Rightarrow> Inr (map (\<lambda>kv. PStr (fst kv)) kvs)
      | PStr s \<Rightarrow> Inr (map (\<lambda>c. PStr [c]) s)
      | _ \<Rightarrow> Inl (TypeError (quoted (type_name x) @ '' object is not iterable'')))"

section \<open>ner\_extract.py: the identity matcher\<close>

text \<open>
  \<open>normalize_name\<close> applied to whatever \<open>known.get('name', '')\<close> returned: a value that is
  not a string has no \<open>lower\<close> method.
\<close>

definition normalize_name_val :: "pyval \<Rightarrow> error + string" where
  "normalize_name_val v =
     (case v of PStr s \<Rightarrow> Inr (normalize_name s) | _ \<Rightarrow> Inl (no_attribute v ''lower''))"

text \<open>
  The inner loop \<^verbatim>\<open>for entity_part in entity_parts: if entity_part in known_parts: return\<close>;
  the result says whether the loop returned.
\<close>

fun entity_parts_loop :: "string list \<Rightarrow> string list \<Rightarrow> bool" where
  "entity_parts_loop [] known_parts = False"
| "entity_parts_loop (entity_part # rest) known_parts =
     (if entity_part \<in> set known_parts then True else entity_parts_loop rest known_parts)"

text \<open>The outer loop \<^verbatim>\<open>for known in known_names\<close>, and \<^verbatim>\<open>return None\<close> after it.\<close>

fun known_names_loop :: "string \<Rightarrow> pyval list \<Rightarrow> error + pyval" where
  "known_names_loop normalized_entity [] = Inr PNone"
| "known_names_loop normalized_entity (known # rest) =
     (case py_get known ''name'' (PStr []) of
        Inl e \<Rightarrow> Inl e
      | Inr nm \<Rightarrow>
          (case normalize_name_val nm of
             Inl e \<Rightarrow> Inl e
           | Inr known_normalized \<Rightarrow>
               if normalized_entity = known_normalized then py_get known ''uin'' PNone
               else if entity_parts_loop (py_split normalized_entity) (py_split known_normalized)
               then py_get known ''uin'' PNone
               else known_names_loop normalized_entity rest))"

definition find_matching_uin :: "string \<Rightarrow> pyval \<Rightarrow> error + pyval" where
  "find_matching_uin entity_text known_names =
     (let normalized_entity = normalize_name entity_text
      in case py_iter known_names of
           Inl e \<Rightarrow> Inl e
         | Inr knowns \<Rightarrow> known_names_loop normalized_entity knowns)"

section \<open>ner\_extract.py: the mention extractor\<close>

text \<open>
  An entity span of the recognizer (\<open>ent.text\<close>, \<open>ent.start_char\<close>, \<open>ent.end_char\<close>,
  and \<open>ent.label_\<close> as \<open>ent_label\<close>). The recognizer \<open>nlp\<close> itself is spaCy's and is a
  parameter of the model: it maps the text to the spans of \<open>doc.ents\<close> or raises.
\<close>

record ent =
  ent_text :: string
  start_char :: int
  end_char :: int
  ent_label :: string

type_synonym recognizer = "pyval \<Rightarrow> error + ent list"

definition mention :: "ent \<Rightarrow> pyval \<Rightarrow> pyval" where
  "mention e uin =
     PDict [(''text'', PStr (ent_text e)), (''start'', PInt (start_char e)),
            (''end'', PInt (end_char e)), (''label'', PStr ''PERSON''), (''uin'', uin)]"

text \<open>The loop \<^verbatim>\<open>for ent in doc.ents\<close>; \<open>entities\<close> is the list built so far.\<close>

fun ents_loop :: "pyval \<Rightarrow> ent list \<Rightarrow> pyval list \<Rightarrow> error + pyval list" where
  "ents_loop known_names [] entities = Inr entities"
| "ents_loop known_names (e # rest) entities =
     (if ent_label e = ''PERSON''
      then (case find_matching_uin (ent_text e) known_names of
              Inl err \<Rightarrow> Inl err
            | Inr uin \<Rightarrow> ents_loop known_names rest (entities @ [mention e uin]))
      else ents_loop known_names rest entities)"

definition extract_person_entities :: "recognizer \<Rightarrow> pyval \<Rightarrow> pyval \<Rightarrow> error + pyval list" where
  "extract_person_entities nlp text known_names =
     (case nlp text of
        Inl e \<Rightarrow> Inl e
      | Inr doc_ents \<Rightarrow> ents_loop known_names doc_ents [])"

section \<open>ner\_extract.py: the program\<close>

text \<open>
  The \<open>try\<close> block of \<open>main\<close>. \<open>json.loads\<close> is the standard library's and is a parameter:
  it maps the text read from standard input to a value or raises \<open>JSONDecodeError\<close>.
\<close>

definition main_try :: "(string \<Rightarrow> error + pyval) \<Rightarrow> recognizer \<Rightarrow> string \<Rightarrow> error + pyval" where
  "main_try loads nlp stdin =
     (case loads stdin of
        Inl e \<Rightarrow> Inl e
      | Inr input_data \<Rightarrow>
          (case py_get input_data ''text'' (PStr []) of
             Inl e \<Rightarrow> Inl e
           | Inr text \<Rightarrow>
               (case py_get input_data ''known_names'' (PList []) of
                  Inl e \<Rightarrow> Inl e
                | Inr known_names \<Rightarrow>
                    (case extract_person_entities nlp text known_names of
                       Inl e \<Rightarrow> Inl e
                     | Inr entities \<Rightarrow> Inr (PDict [(''entities'', PList entities)])))))"

text \<open>
  \<open>main\<close>: what is printed on standard output (each element is one value given to
  \<open>print(json.dumps(...))\<close>) and the exit status of the process.
\<close>

definition main :: "(string \<Rightarrow> error + pyval) \<Rightarrow> recognizer \<Rightarrow> string \<Rightarrow> pyval list \<times> int" where
  "main loads nlp stdin =
     (case main_try loads nlp stdin of
        Inr result \<Rightarrow> ([result], 0)
      | Inl (JSONDecodeError m) \<Rightarrow>
          ([PDict [(''error'', PStr (''Invalid JSON input: '' @ m))]], 1)
      | Inl e \<Rightarrow>
          ([PDict [(''error'', PStr (''Processing error: '' @ str_error e))]], 1))"

text \<open>
  The module as a script: the two guarded imports at the top of the file come before
  \<open>main\<close>.
\<close>

datatype spacy = ImportError | ModelNotFound | Model recognizer

definition ner_extract :: "spacy \<Rightarrow> (string \<Rightarrow> error + pyval) \<Rightarrow> string \<Rightarrow> pyval list \<times> int" where
  "ner_extract env loads stdin =
     (case env of
        ImportError \<Rightarrow>
          ([PDict [(''error'', PStr ''spaCy not installed. Run: pip install spacy && python -m spacy download en_core_web_sm'')]], 1)
      | ModelNotFound \<Rightarrow>
          ([PDict [(''error'', PStr ''spaCy model not found. Run: python -m spacy download en_core_web_sm'')]], 1)
      | Model nlp \<Rightarrow> main loads nlp stdin)"

section \<open>The matcher in the words of the specification\<close>

text \<open>
  A roster entry of the data model: a dict whose display name, when it has one, is a
  string.
\<close>

definition wf_entry :: "pyval \<Rightarrow> bool" where
  "wf_entry k =
     (case k of
        PDict d \<Rightarrow> (case map_of d ''name'' of None \<Rightarrow> True | Some (PStr s) \<Rightarrow> True | Some _ \<Rightarrow> False)
      | _ \<Rightarrow> False)"

definition entry_key :: "pyval \<Rightarrow> string" where
  "entry_key k =
     (case k of
        PDict d \<Rightarrow> (case map_of d ''name'' of Some (PStr s) \<Rightarrow> normalize_name s | _ \<Rightarrow> [])
      | _ \<Rightarrow> [])"

definition entry_uin :: "pyval \<Rightarrow> pyval" where
  "entry_uin k =
     (case k of
        PDict d \<Rightarrow> (case map_of d ''uin'' of None \<Rightarrow> PNone | Some v \<Rightarrow> v)
      | _ \<Rightarrow> PNone)"

definition exact_match :: "string \<Rightarrow> string \<Rightarrow> bool" where
  "exact_match key knownKey = (key = knownKey)"

definition partial_match :: "string \<Rightarrow> string \<Rightarrow> bool" where
  "partial_match key knownKey = (\<exists>t \<in> set (py_split key). t \<in> set (py_split knownKey))"

definition entry_matches :: "string \<Rightarrow> pyval \<Rightarrow> bool" where
  "entry_matches key k = (exact_match key (entry_key k) \<or> partial_match key (entry_key k))"

definition spec_match :: "string \<Rightarrow> pyval list \<Rightarrow> pyval" where
  "spec_match detectedName roster =
     (case find (entry_matches (normalize_name detectedName)) roster of
        None \<Rightarrow> PNone
      | Some k \<Rightarrow> entry_uin k)"

text \<open>The value \<open>v\<close> is the \<open>uin\<close> field of some entry of the roster.\<close>

definition uin_in_roster :: "pyval \<Rightarrow> pyval \<Rightarrow> bool" where
  "uin_in_roster v known_names =
     (case known_names of
        PList ks \<Rightarrow> list_ex (\<lambda>k. case k of PDict d \<Rightarrow> map_of d ''uin'' = Some v | _ \<Rightarrow> False) ks
      | _ \<Rightarrow> False)"

section \<open>sanitize\_pdf.py\<close>

text \<open>
  pypdf and the file system are not part of the repository. The model keeps of a PDF file
  its pages, its document information dictionary and whether its catalog refers to an XMP
  metadata stream, and of the file system the PDF files by path. A fresh \<open>PdfWriter\<close> holds
  the pages added to it and, after \<open>add_metadata\<close>, the given information dictionary; it
  has no XMP stream of its own.
\<close>

record pdf =
  pages :: "nat list"
  metadata :: "(string \<times> string) list"
  xmp :: bool

type_synonym files = "string \<Rightarrow> pdf option"

definition sanitized_metadata :: "(string \<times> string) list" where
  "sanitized_metadata =
     [(''/Producer'', ''Safe Harbour POSH Platform''),
      (''/Creator'', ''Safe Harbour Report System''),
      (''/Title'', ''Confidential Report'')]"

definition stripped_fields :: "string list" where
  "stripped_fields =
     [''/Author'', ''/Creator'', ''/Producer'', ''/CreationDate'',
      ''/ModDate'', ''/Subject'', ''/Keywords'', ''/XMP'']"

text \<open>
  \<open>sanitize_pdf\<close>: the report it returns and the files it leaves. The second pass re-reads
  the file just written and writes it again with the same metadata and no XMP reference.
\<close>

definition sanitize_pdf :: "string \<Rightarrow> string \<Rightarrow> files \<Rightarrow> error + (pyval \<times> files)" where
  "sanitize_pdf input_path output_path fs =
     (case fs input_path of
        None \<Rightarrow> Inl (FileNotFoundError (''[Errno 2] No such file or directory: '' @ quoted input_path))
      | Some reader \<Rightarrow>
          (let original_metadata = metadata reader;
               written = \<lparr>pages = pages reader, metadata = sanitized_metadata, xmp = False\<rparr>;
               fs1 = fs(output_path \<mapsto> written);
               rewritten = \<lparr>pages = pages written, metadata = sanitized_metadata, xmp = False\<rparr>;
               fs2 = fs1(output_path \<mapsto> rewritten)
           in Inr (PDict
                [(''status'', PStr ''success''),
                 (''input'', PStr input_path),
                 (''output'', PStr output_path),
                 (''stripped_fields'', PList (map PStr stripped_fields)),
                 (''original_author'',
                    PStr (case map_of original_metadata ''/Author'' of None \<Rightarrow> ''N/A'' | Some a \<Rightarrow> a)),
                 (''original_creator'',
                    PStr (case map_of original_metadata ''/Creator'' of None \<Rightarrow> ''N/A'' | Some a \<Rightarrow> a))],
              fs2)))"

text \<open>
  \<open>main\<close> of \<open>sanitize_pdf.py\<close> on the argument vector \<open>sys.argv\<close>: the lines printed, the
  exit status and the files left. The check mark and the cross that open the printed
  lines lie outside the modelled code points and are left out.
\<close>

definition sanitize_pdf_main :: "string list \<Rightarrow> files \<Rightarrow> string list \<times> int \<times> files" where
  "sanitize_pdf_main argv fs =
     (if length argv < 3
      then ([''Usage: python sanitize_pdf.py <input.pdf> <output.pdf>'',
             ''       python sanitize_pdf.py <input.pdf>  (overwrites in place)''], 1, fs)
      else
        (let input_path = argv ! 1;
             output_path = (if length argv \<ge> 3 then argv ! 2 else input_path)
         in case sanitize_pdf input_path output_path fs of
              Inr (result, fs') \<Rightarrow>
                ([''PDF sanitized successfully'',
                  ''   Input:  '' @ input_path,
                  ''   Output: '' @ output_path,
                  ''   Stripped: '' @ py_join '', '' stripped_fields], 0, fs')
            | Inl (FileNotFoundError m) \<Rightarrow> ([''Error: File not found: '' @ input_path], 1, fs)
            | Inl e \<Rightarrow> ([''Error sanitizing PDF: '' @ str_error e], 1, fs)))"

section \<open>Facts about the string operations\<close>

lemma of_char_lower_char:
  "(of_char (lower_char c) :: nat) =
     (let n = (of_char c :: nat)
      in if (65 \<le> n \<and> n \<le> 90) \<or> (192 \<le> n \<and> n \<le> 222 \<and> n \<noteq> 215) then n + 32 else n)"
  unfolding lower_char_def Let_def
  by simp

lemma isspace_lower_char [simp]: "isspace (lower_char c) = isspace c"
proof (cases "(65 \<le> (of_char c::nat) \<and> (of_char c::nat) \<le> 90) \<or> (192 \<le> (of_char c::nat) \<and> (of_char c::nat) \<le> 222 \<and> (of_char c::nat) \<noteq> 215)")
  case True
  then have e: "(of_char (lower_char c) :: nat) = of_char c + 32"
    by (simp add: of_char_lower_char)
  have "isspace (lower_char c) = False"
    unfolding isspace_def e using True by auto
  moreover have "isspace c = False"
    unfolding isspace_def using True by auto
  ultimately show ?thesis by simp
next
  case False
  have "lower_char c = c"
    unfolding lower_char_def Let_def by (simp only: False if_False)
  then show ?thesis by simp
qed

lemma lower_char_idem [simp]: "lower_char (lower_char c) = lower_char c"
proof (cases "(65 \<le> (of_char c::nat) \<and> (of_char c::nat) \<le> 90) \<or> (192 \<le> (of_char c::nat) \<and> (of_char c::nat) \<le> 222 \<and> (of_char c::nat) \<noteq> 215)")
  case True
  then have e: "(of_char (lower_char c) :: nat) = of_char c + 32"
    by (simp add: of_char_lower_char)
  have n: "\<not> ((65 \<le> (of_char (lower_char c)::nat) \<and> (of_char (lower_char c)::nat) \<le> 90) \<or>
      (192 \<le> (of_char (lower_char c)::nat) \<and> (of_char (lower_char c)::nat) \<le> 222 \<and> (of_char (lower_char c)::nat) \<noteq> 215))"
    unfolding e using True by auto
  show ?thesis
    unfolding lower_char_def[of "lower_char c"] Let_def by (simp only: n if_False)
next
  case False
  have "lower_char c = c"
    unfolding lower_char_def Let_def by (simp only: False if_False)
  then show ?thesis by simp
qed

lemma py_split_dropWhile [simp]: "py_split (dropWhile isspace s) = py_split s"
  by (subst py_split.simps, subst (2) py_split.simps) simp

lemma py_split_Nil [simp]: "py_split [] = []"
  by (subst py_split.simps) simp

lemma py_split_all_space: "\<forall>c\<in>set s. isspace c \<Longrightarrow> py_split s = []"
  by (subst py_split.simps) (simp add: dropWhile_eq_Nil_conv[THEN iffD2])

lemma py_split_space_Cons [simp]: "isspace c \<Longrightarrow> py_split (c # s) = py_split s"
  by (subst py_split.simps, subst (2) py_split.simps) simp


lemma py_split_tokens:
  "t \<in> set (py_split s) \<Longrightarrow> t \<noteq> [] \<and> (\<forall>c\<in>set t. \<not> isspace c)"
proof (induction s rule: py_split.induct)
  case (1 s)
  show ?case
  proof (cases "dropWhile isspace s")
    case Nil
    with "1.prems" show ?thesis by (subst (asm) py_split.simps) simp
  next
    case (Cons c cs)
    have hd: "\<not> isspace c" using Cons hd_dropWhile[of isspace s] by auto
    from "1.prems" Cons have "t = c # takeWhile (\<lambda>x. \<not> isspace x) cs \<or> t \<in> set (py_split (dropWhile (\<lambda>x. \<not> isspace x) cs))"
      by (subst (asm) py_split.simps) simp
    then show ?thesis
    proof
      assume "t = c # takeWhile (\<lambda>x. \<not> isspace x) cs"
      then show ?thesis using hd by (auto dest: set_takeWhileD)
    next
      assume "t \<in> set (py_split (dropWhile (\<lambda>x. \<not> isspace x) cs))"
      then show ?thesis by (rule "1.IH"[OF Cons])
    qed
  qed
qed

lemma nonspace_take [simp]: "\<forall>x\<in>set cs. \<not> isspace x \<Longrightarrow> takeWhile (\<lambda>x. \<not> isspace x) cs = cs"
  by (simp add: takeWhile_eq_all_conv)

lemma nonspace_drop [simp]: "\<forall>x\<in>set cs. \<not> isspace x \<Longrightarrow> dropWhile (\<lambda>x. \<not> isspace x) cs = []"
  by (simp add: dropWhile_eq_Nil_conv)

lemma py_split_append_space:
  "\<forall>c\<in>set ws. isspace c \<Longrightarrow> py_split (s @ ws) = py_split s"
proof (induction s rule: py_split.induct)
  case (1 s)
  show ?case
  proof (cases "dropWhile isspace s")
    case Nil
    then have "\<forall>c\<in>set s. isspace c" by (simp add: dropWhile_eq_Nil_conv)
    with "1.prems" have "\<forall>c\<in>set (s @ ws). isspace c" by auto
    then have "py_split (s @ ws) = []" by (rule py_split_all_space)
    moreover have "py_split s = []" using \<open>\<forall>c\<in>set s. isspace c\<close> by (rule py_split_all_space)
    ultimately show ?thesis by simp
  next
    case (Cons c cs)
    have hd: "\<not> isspace c" using Cons hd_dropWhile[of isspace s] by auto
    have ex: "\<exists>x\<in>set s. \<not> isspace x" using Cons by (metis dropWhile_eq_Nil_conv list.distinct(1))
    from ex obtain x where "x \<in> set s" "\<not> isspace x" by blast
    then have "dropWhile isspace (s @ ws) = dropWhile isspace s @ ws"
      by (rule dropWhile_append1)
    then have dw: "dropWhile isspace (s @ ws) = c # cs @ ws"
      by (simp add: Cons)
    have l: "py_split s = (c # takeWhile (\<lambda>x. \<not> isspace x) cs) # py_split (dropWhile (\<lambda>x. \<not> isspace x) cs)"
      by (subst py_split.simps) (simp add: Cons)
    have r: "py_split (s @ ws) = (c # takeWhile (\<lambda>x. \<not> isspace x) (cs @ ws)) # py_split (dropWhile (\<lambda>x. \<not> isspace x) (cs @ ws))"
      by (subst py_split.simps) (simp add: dw)
    show ?thesis
    proof (cases "\<exists>x\<in>set cs. isspace x")
      case True
      then obtain y where y: "y \<in> set cs" "\<not> \<not> isspace y" by blast
      have "takeWhile (\<lambda>x. \<not> isspace x) (cs @ ws) = takeWhile (\<lambda>x. \<not> isspace x) cs"
        using y by (rule takeWhile_append1)
      moreover have "dropWhile (\<lambda>x. \<not> isspace x) (cs @ ws) = dropWhile (\<lambda>x. \<not> isspace x) cs @ ws"
        using y by (rule dropWhile_append1)
      ultimately show ?thesis using l r "1.IH"[OF Cons "1.prems"] by simp
    next
      case False
      then have a: "\<forall>x\<in>set cs. \<not> isspace x" by simp
      have tw: "takeWhile (\<lambda>x. \<not> isspace x) ws = []" using "1.prems" by (cases ws) auto
      have dwn: "dropWhile (\<lambda>x. \<not> isspace x) ws = ws" using "1.prems" by (cases ws) auto
      have "takeWhile (\<lambda>x. \<not> isspace x) (cs @ ws) = cs" using a tw by (simp add: takeWhile_append2)
      moreover have "dropWhile (\<lambda>x. \<not> isspace x) (cs @ ws) = ws" using a dwn by (simp add: dropWhile_append2)
      moreover have "py_split ws = []" using "1.prems" by (rule py_split_all_space)
      ultimately have "py_split (s @ ws) = [c # cs]" using r by simp
      moreover have "py_split s = [c # cs]" using l a by simp
      ultimately show ?thesis by simp
    qed
  qed
qed

lemma py_split_strip [simp]: "py_split (py_strip s) = py_split s"
proof -
  let ?d = "dropWhile isspace s"
  have "rev ?d = takeWhile isspace (rev ?d) @ dropWhile isspace (rev ?d)"
    by simp
  then have "rev (rev ?d) = rev (takeWhile isspace (rev ?d) @ dropWhile isspace (rev ?d))"
    by (rule arg_cong)
  then have "?d = rev (dropWhile isspace (rev ?d)) @ rev (takeWhile isspace (rev ?d))"
    by (simp only: rev_rev_ident rev_append)
  moreover have "\<forall>c\<in>set (rev (takeWhile isspace (rev ?d))). isspace c"
    by (auto dest: set_takeWhileD)
  ultimately have "py_split ?d = py_split (rev (dropWhile isspace (rev ?d)))"
    using py_split_append_space[of "rev (takeWhile isspace (rev ?d))" "rev (dropWhile isspace (rev ?d))"]
    by simp
  then have "py_split ?d = py_split (py_strip s)"
    by (simp only: py_strip_def)
  then show ?thesis by simp
qed











section \<open>Facts about the matcher and the extractor\<close>

lemma entity_parts_loop_iff:
  "entity_parts_loop entity_parts known_parts = (\<exists>t\<in>set entity_parts. t \<in> set known_parts)"
  by (induction entity_parts) auto

lemma wf_entry_cases:
  assumes "wf_entry k"
  obtains d where "k = PDict d" "map_of d ''name'' = None"
  | d s where "k = PDict d" "map_of d ''name'' = Some (PStr s)"
  using assms unfolding wf_entry_def
  by (auto split: pyval.splits option.splits)

lemma known_names_loop_step:
  assumes "wf_entry k"
  shows "known_names_loop key (k # rest) =
     (if entry_matches key k then Inr (entry_uin k) else known_names_loop key rest)"
  using assms
proof (cases rule: wf_entry_cases)
  case (1 d)
  have n: "normalize_name [] = []"
    by (simp add: normalize_name_def py_lower_def py_strip_def)
  show ?thesis
    by (simp add: 1 py_get_def normalize_name_val_def entry_matches_def entry_key_def
        entry_uin_def exact_match_def partial_match_def entity_parts_loop_iff n)
next
  case (2 d s)
  show ?thesis
    by (simp add: 2 py_get_def normalize_name_val_def entry_matches_def entry_key_def
        entry_uin_def exact_match_def partial_match_def entity_parts_loop_iff)
qed

lemma known_names_loop_find:
  "\<forall>k\<in>set ks. wf_entry k \<Longrightarrow>
   known_names_loop key ks =
     Inr (case find (entry_matches key) ks of None \<Rightarrow> PNone | Some k \<Rightarrow> entry_uin k)"
proof (induction ks)
  case Nil
  show ?case by simp
next
  case (Cons k ks)
  then have "wf_entry k" by simp
  then show ?case using Cons by (simp only: known_names_loop_step) simp
qed

lemma known_names_loop_skip:
  "\<forall>k\<in>set pre. wf_entry k \<and> \<not> entry_matches key k \<Longrightarrow>
   known_names_loop key (pre @ rest) = known_names_loop key rest"
proof (induction pre)
  case Nil
  show ?case by simp
next
  case (Cons k pre)
  then have "wf_entry k" "\<not> entry_matches key k" by simp_all
  then have "known_names_loop key ((k # pre) @ rest) = known_names_loop key (pre @ rest)"
    by (simp only: append_Cons known_names_loop_step if_False)
  then show ?case using Cons by simp
qed

lemma py_get_Inr_dict: "py_get k a d = Inr v \<Longrightarrow> \<exists>kvs. k = PDict kvs"
  by (cases k) (simp_all add: py_get_def)

lemma known_names_loop_provenance:
  "known_names_loop key ks = Inr v \<Longrightarrow> v \<noteq> PNone \<Longrightarrow>
   \<exists>d. PDict d \<in> set ks \<and> map_of d ''uin'' = Some v"
proof (induction ks)
  case Nil
  then show ?case by simp
next
  case (Cons k ks)
  show ?case
  proof (cases k)
    case (PDict d)
    have uin: "py_get k ''uin'' PNone = Inr v \<Longrightarrow> map_of d ''uin'' = Some v"
      using Cons.prems(2) by (auto simp: PDict py_get_def split: option.splits)
    from Cons.prems(1) have
      "py_get k ''uin'' PNone = Inr v \<or> known_names_loop key ks = Inr v"
      by (auto split: sum.splits if_splits)
    then show ?thesis
    proof
      assume "py_get k ''uin'' PNone = Inr v"
      then show ?thesis using uin PDict by auto
    next
      assume "known_names_loop key ks = Inr v"
      then show ?thesis using Cons.IH Cons.prems(2) by auto
    qed
  qed (use Cons.prems in \<open>simp_all add: py_get_def\<close>)
qed

lemma py_split_eq_Nil_iff: "py_split s = [] \<longleftrightarrow> (\<forall>c\<in>set s. isspace c)"
proof
  assume a: "py_split s = []"
  show "\<forall>c\<in>set s. isspace c"
  proof (cases "dropWhile isspace s")
    case Nil
    then show ?thesis by (simp add: dropWhile_eq_Nil_conv)
  next
    case (Cons c cs)
    have "py_split s \<noteq> []"
      by (subst py_split.simps) (simp only: Cons list.case list.distinct not_False_eq_True)
    with a show ?thesis by simp
  qed
next
  assume "\<forall>c\<in>set s. isspace c"
  then show "py_split s = []" by (rule py_split_all_space)
qed

lemma py_join_eq_Nil_iff:
  "\<forall>t\<in>set ts. t \<noteq> [] \<Longrightarrow> py_join sep ts = [] \<longleftrightarrow> ts = []"
proof (cases ts)
  case Nil
  then show ?thesis by simp
next
  case (Cons t ts')
  assume "\<forall>t\<in>set ts. t \<noteq> []"
  with Cons have "t \<noteq> []" by simp
  then show ?thesis unfolding Cons by (cases ts') simp_all
qed

lemma normalize_name_eq_Nil_iff: "normalize_name s = [] \<longleftrightarrow> (\<forall>c\<in>set s. isspace c)"
proof -
  have a: "normalize_name s = py_join '' '' (py_split (py_lower s))"
    by (simp only: normalize_name_def py_split_strip)
  have "\<forall>t\<in>set (py_split (py_lower s)). t \<noteq> []"
    using py_split_tokens by blast
  then have "normalize_name s = [] \<longleftrightarrow> py_split (py_lower s) = []"
    unfolding a by (rule py_join_eq_Nil_iff)
  also have "\<dots> \<longleftrightarrow> (\<forall>c\<in>set (py_lower s). isspace c)"
    by (rule py_split_eq_Nil_iff)
  also have "\<dots> \<longleftrightarrow> (\<forall>c\<in>set s. isspace c)"
    by (simp add: py_lower_def)
  finally show ?thesis .
qed

lemma normalize_name_Nil: "normalize_name [] = []"
  by (simp add: normalize_name_eq_Nil_iff)

lemma find_matching_uin_wf:
  assumes "\<forall>k\<in>set roster. wf_entry k"
  shows "find_matching_uin detected (PList roster) =
     Inr (case find (entry_matches (normalize_name detected)) roster of
            None \<Rightarrow> PNone | Some k \<Rightarrow> entry_uin k)"
  unfolding find_matching_uin_def Let_def py_iter_def
  using known_names_loop_find[OF assms] by simp

lemma find_matching_uin_skip:
  assumes "\<forall>k\<in>set pre. wf_entry k \<and> \<not> entry_matches (normalize_name detected) k"
  shows "find_matching_uin detected (PList (pre @ rest)) = find_matching_uin detected (PList rest)"
  unfolding find_matching_uin_def Let_def py_iter_def
  using known_names_loop_skip[OF assms] by simp

lemma find_matching_uin_step:
  assumes "wf_entry k"
  shows "find_matching_uin detected (PList (k # rest)) =
     (if entry_matches (normalize_name detected) k then Inr (entry_uin k)
      else find_matching_uin detected (PList rest))"
  unfolding find_matching_uin_def Let_def py_iter_def
  using known_names_loop_step[OF assms] by simp

lemma find_matching_uin_provenance:
  assumes "find_matching_uin detected known_names = Inr v" and "v \<noteq> PNone"
  shows "uin_in_roster v known_names"
proof -
  from assms(1) obtain knowns where it: "py_iter known_names = Inr knowns"
    and loop: "known_names_loop (normalize_name detected) knowns = Inr v"
    unfolding find_matching_uin_def Let_def by (auto split: sum.splits)
  from known_names_loop_provenance[OF loop assms(2)]
  obtain d where d: "PDict d \<in> set knowns" "map_of d ''uin'' = Some v" by blast
  show ?thesis
  proof (cases known_names)
    case (PList ks)
    with it have "knowns = ks" by (simp add: py_iter_def)
    with d show ?thesis unfolding PList uin_in_roster_def
      by (auto simp: list_ex_iff intro!: bexI[of _ "PDict d"])
  next
    case (PDict kvs)
    with it d show ?thesis by (auto simp: py_iter_def)
  next
    case (PStr s)
    with it d show ?thesis by (auto simp: py_iter_def)
  qed (use it in \<open>simp_all add: py_iter_def\<close>)
qed

lemma ents_loop_provenance:
  "ents_loop known_names es acc = Inr ms \<Longrightarrow>
   \<forall>m\<in>set acc. \<exists>e v. m = mention e v \<and> (v = PNone \<or> uin_in_roster v known_names) \<Longrightarrow>
   \<forall>m\<in>set ms. \<exists>e v. m = mention e v \<and> (v = PNone \<or> uin_in_roster v known_names)"
proof (induction es arbitrary: acc)
  case Nil
  then show ?case by simp
next
  case (Cons e es)
  show ?case
  proof (cases "ent_label e = ''PERSON''")
    case True
    with Cons.prems(1) obtain uin where u: "find_matching_uin (ent_text e) known_names = Inr uin"
      and r: "ents_loop known_names es (acc @ [mention e uin]) = Inr ms"
      by (auto split: sum.splits)
    have "uin = PNone \<or> uin_in_roster uin known_names"
      using find_matching_uin_provenance[OF u] by blast
    then have "\<forall>m\<in>set (acc @ [mention e uin]).
        \<exists>e v. m = mention e v \<and> (v = PNone \<or> uin_in_roster v known_names)"
      using Cons.prems(2) by auto
    with Cons.IH[OF r] show ?thesis by blast
  next
    case False
    with Cons.prems(1) have "ents_loop known_names es acc = Inr ms" by simp
    from Cons.IH[OF this Cons.prems(2)] show ?thesis .
  qed
qed

lemma ents_loop_mentions:
  assumes "\<And>s :: ent. \<exists>u. find_matching_uin (ent_text s) known_names = Inr u"
  shows "\<exists>ms. ents_loop known_names es acc = Inr (acc @ ms) \<and>
     list_all2 (\<lambda>s m. \<exists>u. find_matching_uin (ent_text s) known_names = Inr u \<and> m = mention s u)
       (filter (\<lambda>s. ent_label s = ''PERSON'') es) ms"
proof (induction es arbitrary: acc)
  case Nil
  show ?case by simp
next
  case (Cons e es)
  show ?case
  proof (cases "ent_label e = ''PERSON''")
    case True
    from assms obtain u where u: "find_matching_uin (ent_text e) known_names = Inr u" by blast
    from Cons.IH[of "acc @ [mention e u]"] obtain ms where
      ms: "ents_loop known_names es (acc @ [mention e u]) = Inr ((acc @ [mention e u]) @ ms)"
        "list_all2 (\<lambda>s m. \<exists>u. find_matching_uin (ent_text s) known_names = Inr u \<and> m = mention s u)
          (filter (\<lambda>s. ent_label s = ''PERSON'') es) ms"
      by blast
    show ?thesis
    proof (intro exI conjI)
      show "ents_loop known_names (e # es) acc = Inr (acc @ (mention e u # ms))"
        using True u ms(1) by simp
      show "list_all2 (\<lambda>s m. \<exists>u. find_matching_uin (ent_text s) known_names = Inr u \<and> m = mention s u)
          (filter (\<lambda>s. ent_label s = ''PERSON'') (e # es)) (mention e u # ms)"
        using True u ms(2) by simp
    qed
  next
    case False
    then show ?thesis using Cons.IH[of acc] by simp
  qed
qed

lemma normalize_John_Doe: "normalize_name ''John Doe'' = ''john doe''"
  by code_simp

section \<open>Properties of the normalizer\<close>




section \<open>Properties of the matcher\<close>

text \<open>
  Claim C1. On a roster of entries of the data model the matcher scans the roster in order
  and returns the \<open>uin\<close> of the first entry whose normalized display name equals the
  normalized detected name or shares a white-space separated token with it; when no entry
  matches, the empty roster included, it returns \<open>None\<close>.
\<close>

theorem find_matching_uin_first_match:
  assumes "\<forall>k\<in>set roster. wf_entry k"
  shows "find_matching_uin detectedName (PList roster) = Inr (spec_match detectedName roster)"
  unfolding spec_match_def using assms by (rule find_matching_uin_wf)

theorem find_matching_uin_first_match_witness:
  "find_matching_uin ''John''
     (PList [PDict [(''name'', PStr ''John Smith''), (''uin'', PStr ''1'')],
             PDict [(''name'', PStr ''John Doe''), (''uin'', PStr ''2'')]]) = Inr (PStr ''1'')"
proof -
  let ?roster = "[PDict [(''name'', PStr ''John Smith''), (''uin'', PStr ''1'')],
                  PDict [(''name'', PStr ''John Doe''), (''uin'', PStr ''2'')]]"
  have wf: "\<forall>k\<in>set ?roster. wf_entry k"
    by (simp add: wf_entry_def)
  have v: "spec_match ''John'' ?roster = PStr ''1''"
    by code_simp
  show ?thesis
    using find_matching_uin_first_match [OF wf, of "''John''"] by (simp only: v)
qed

text \<open>
  Claim C2, as stated: every roster that contains the entry John Doe with uin 1 gives 1 for
  a detected name that normalizes to \<open>john doe\<close>. It fails when an earlier entry shares a
  token: here John Smith comes first and its uin 2 is returned.
\<close>

theorem john_doe_counterexample:
  "normalize_name ''John Doe'' = ''john doe'' \<and>
   find_matching_uin ''John Doe''
     (PList [PDict [(''name'', PStr ''John Smith''), (''uin'', PStr ''2'')],
             PDict [(''name'', PStr ''John Doe''), (''uin'', PStr ''1'')]]) = Inr (PStr ''2'')"
  by code_simp

text \<open>
  Claim C2, amended. When no entry before the John Doe entry equals \<open>john doe\<close> after
  normalization or shares the token \<open>john\<close> or \<open>doe\<close> with it, the matcher returns 1 for
  every detected name that normalizes to \<open>john doe\<close>, whatever follows the entry.
\<close>

theorem john_doe_first_match:
  assumes "normalize_name detectedName = ''john doe''"
    and "map_of d ''name'' = Some (PStr ''John Doe'')"
    and "map_of d ''uin'' = Some (PStr ''1'')"
    and "\<forall>k\<in>set pre. wf_entry k \<and> \<not> entry_matches ''john doe'' k"
  shows "find_matching_uin detectedName (PList (pre @ PDict d # rest)) = Inr (PStr ''1'')"
proof -
  have wf: "wf_entry (PDict d)"
    by (simp add: wf_entry_def assms(2))
  have m: "entry_matches (normalize_name detectedName) (PDict d)"
    by (simp add: entry_matches_def exact_match_def entry_key_def assms(1,2) normalize_John_Doe)
  have "find_matching_uin detectedName (PList (pre @ PDict d # rest)) =
      find_matching_uin detectedName (PList (PDict d # rest))"
    using assms(4) by (intro find_matching_uin_skip) (simp add: assms(1))
  also have "\<dots> = Inr (entry_uin (PDict d))"
    using m by (simp add: find_matching_uin_step[OF wf])
  finally show ?thesis by (simp add: entry_uin_def assms(3))
qed

theorem john_doe_first_match_witness:
  "find_matching_uin ''  JOHN   doe ''
     (PList [PDict [(''name'', PStr ''Alice''), (''uin'', PStr ''7'')],
             PDict [(''name'', PStr ''John Doe''), (''uin'', PStr ''1'')],
             PDict [(''name'', PStr ''John Smith''), (''uin'', PStr ''2'')]]) = Inr (PStr ''1'')"
proof -
  have a: "normalize_name ''  JOHN   doe '' = ''john doe''"
    by code_simp
  have b: "\<forall>k\<in>set [PDict [(''name'', PStr ''Alice''), (''uin'', PStr ''7'')]].
      wf_entry k \<and> \<not> entry_matches ''john doe'' k"
    by code_simp
  show ?thesis
    using john_doe_first_match [OF a _ _ b,
      of "[(''name'', PStr ''John Doe''), (''uin'', PStr ''1'')]"
         "[PDict [(''name'', PStr ''John Smith''), (''uin'', PStr ''2'')]]"]
    by simp
qed

text \<open>
  Claim C6. A roster entry whose display name is missing or empty normalizes to the empty
  string without an error; it matches exactly when the detected name holds white space
  only (the empty name among them), and for every other detected name the scan goes on
  with the rest of the roster.
\<close>

theorem empty_name_entry_matches_only_empty:
  assumes "map_of d ''name'' = None \<or> map_of d ''name'' = Some (PStr [])"
  shows "(\<exists>nm. py_get (PDict d) ''name'' (PStr []) = Inr nm \<and> normalize_name_val nm = Inr []) \<and>
     (entry_matches (normalize_name detectedName) (PDict d) \<longleftrightarrow> (\<forall>c\<in>set detectedName. isspace c)) \<and>
     find_matching_uin detectedName (PList (PDict d # rest)) =
       (if \<forall>c\<in>set detectedName. isspace c then Inr (entry_uin (PDict d))
        else find_matching_uin detectedName (PList rest))"
proof -
  have wf: "wf_entry (PDict d)"
    using assms by (auto simp: wf_entry_def)
  have key: "entry_key (PDict d) = []"
    using assms by (auto simp: entry_key_def normalize_name_Nil)
  have m: "entry_matches (normalize_name detectedName) (PDict d) \<longleftrightarrow> (\<forall>c\<in>set detectedName. isspace c)"
    by (simp add: entry_matches_def exact_match_def partial_match_def key normalize_name_eq_Nil_iff)
  have "\<exists>nm. py_get (PDict d) ''name'' (PStr []) = Inr nm \<and> normalize_name_val nm = Inr []"
    using assms by (auto simp: py_get_def normalize_name_val_def normalize_name_Nil)
  moreover have "find_matching_uin detectedName (PList (PDict d # rest)) =
       (if \<forall>c\<in>set detectedName. isspace c then Inr (entry_uin (PDict d))
        else find_matching_uin detectedName (PList rest))"
    by (simp only: find_matching_uin_step[OF wf] m)
  ultimately show ?thesis using m by blast
qed

theorem empty_name_entry_matches_only_empty_witness:
  "find_matching_uin ''Bob''
     (PList [PDict [(''uin'', PStr ''9'')], PDict [(''name'', PStr ''Bob''), (''uin'', PStr ''1'')]])
     = Inr (PStr ''1'') \<and>
   find_matching_uin ''  ''
     (PList [PDict [(''name'', PStr []), (''uin'', PStr ''9'')],
             PDict [(''name'', PStr ''Bob''), (''uin'', PStr ''1'')]])
     = Inr (PStr ''9'')"
proof -
  have a: "map_of [(''uin'', PStr ''9'')] ''name'' = None \<or>
      map_of [(''uin'', PStr ''9'')] ''name'' = Some (PStr [])"
    by simp
  have b: "map_of [(''name'', PStr []), (''uin'', PStr ''9'')] ''name'' = None \<or>
      map_of [(''name'', PStr []), (''uin'', PStr ''9'')] ''name'' = Some (PStr [])"
    by simp
  have r: "find_matching_uin ''Bob'' (PList [PDict [(''name'', PStr ''Bob''), (''uin'', PStr ''1'')]])
      = Inr (PStr ''1'')"
    by code_simp
  have "find_matching_uin ''Bob''
     (PList [PDict [(''uin'', PStr ''9'')], PDict [(''name'', PStr ''Bob''), (''uin'', PStr ''1'')]])
     = Inr (PStr ''1'')"
    using empty_name_entry_matches_only_empty [OF a, of "''Bob''"
        "[PDict [(''name'', PStr ''Bob''), (''uin'', PStr ''1'')]]"] r
    by (simp add: isspace_def)
  moreover have "find_matching_uin ''  ''
     (PList [PDict [(''name'', PStr []), (''uin'', PStr ''9'')],
             PDict [(''name'', PStr ''Bob''), (''uin'', PStr ''1'')]])
     = Inr (PStr ''9'')"
    using empty_name_entry_matches_only_empty [OF b, of "''  ''"
        "[PDict [(''name'', PStr ''Bob''), (''uin'', PStr ''1'')]]"]
    by (simp add: entry_uin_def isspace_def)
  ultimately show ?thesis by simp
qed

text \<open>
  Claim C9. A value other than \<open>None\<close> returned by the matcher is the \<open>uin\<close> field of some
  entry of the roster it was given; hence every mention of the extractor carries \<open>None\<close>
  or the \<open>uin\<close> of an entry of the roster of the request.
\<close>

theorem uin_provenance:
  "(find_matching_uin detectedName known_names = Inr v \<and> v \<noteq> PNone \<longrightarrow>
      uin_in_roster v known_names) \<and>
   (extract_person_entities nlp text known_names = Inr ms \<longrightarrow>
      (\<forall>m\<in>set ms. \<exists>e u. m = mention e u \<and> (u = PNone \<or> uin_in_roster u known_names)))"
proof (intro conjI impI)
  assume "find_matching_uin detectedName known_names = Inr v \<and> v \<noteq> PNone"
  then show "uin_in_roster v known_names"
    using find_matching_uin_provenance by blast
next
  assume a: "extract_person_entities nlp text known_names = Inr ms"
  then obtain es where "ents_loop known_names es [] = Inr ms"
    unfolding extract_person_entities_def by (auto split: sum.splits)
  then show "\<forall>m\<in>set ms. \<exists>e u. m = mention e u \<and> (u = PNone \<or> uin_in_roster u known_names)"
    by (rule ents_loop_provenance) simp
qed

theorem uin_provenance_witness:
  "find_matching_uin ''Jane'' (PList [PDict [(''name'', PStr ''Jane''), (''uin'', PStr ''42'')]])
     = Inr (PStr ''42'') \<and>
   uin_in_roster (PStr ''42'') (PList [PDict [(''name'', PStr ''Jane''), (''uin'', PStr ''42'')]]) \<and>
   extract_person_entities
     (\<lambda>t. Inr [\<lparr>ent_text = ''Jane'', start_char = 0, end_char = 4, ent_label = ''PERSON''\<rparr>])
     (PStr ''Jane left'') (PList [PDict [(''name'', PStr ''Jane''), (''uin'', PStr ''42'')]])
     = Inr [mention \<lparr>ent_text = ''Jane'', start_char = 0, end_char = 4, ent_label = ''PERSON''\<rparr>
              (PStr ''42'')]"
proof -
  let ?ks = "PList [PDict [(''name'', PStr ''Jane''), (''uin'', PStr ''42'')]]"
  have f: "find_matching_uin ''Jane'' ?ks = Inr (PStr ''42'')"
    by code_simp
  have n: "PStr ''42'' \<noteq> PNone" by simp
  have "uin_in_roster (PStr ''42'') ?ks"
    using uin_provenance [of "''Jane''" ?ks "PStr ''42''"] f n by blast
  moreover have "extract_person_entities
     (\<lambda>t. Inr [\<lparr>ent_text = ''Jane'', start_char = 0, end_char = 4, ent_label = ''PERSON''\<rparr>])
     (PStr ''Jane left'') ?ks
     = Inr [mention \<lparr>ent_text = ''Jane'', start_char = 0, end_char = 4, ent_label = ''PERSON''\<rparr>
              (PStr ''42'')]"
    by (simp add: extract_person_entities_def f)
  ultimately show ?thesis using f by simp
qed

text \<open>
  Claim C10. When the first entry that matches the detected name has no \<open>uin\<close> field,
  the matcher returns \<open>None\<close>, as it does on a roster with no match, and the entries after
  it are not looked at: the result is the same for every continuation of the roster.
\<close>

theorem first_match_without_uin:
  assumes "\<forall>k\<in>set pre. wf_entry k \<and> \<not> entry_matches (normalize_name detectedName) k"
    and "wf_entry (PDict d)"
    and "entry_matches (normalize_name detectedName) (PDict d)"
    and "map_of d ''uin'' = None"
  shows "find_matching_uin detectedName (PList (pre @ PDict d # rest)) = Inr PNone \<and>
     find_matching_uin detectedName (PList pre) = Inr PNone"
proof -
  have "find_matching_uin detectedName (PList (pre @ PDict d # rest)) =
      find_matching_uin detectedName (PList (PDict d # rest))"
    using assms(1) by (rule find_matching_uin_skip)
  also have "\<dots> = Inr (entry_uin (PDict d))"
    using assms(3) by (simp add: find_matching_uin_step[OF assms(2)])
  finally have a: "find_matching_uin detectedName (PList (pre @ PDict d # rest)) = Inr PNone"
    by (simp add: entry_uin_def assms(4))
  have "find_matching_uin detectedName (PList (pre @ [])) = find_matching_uin detectedName (PList [])"
    using assms(1) by (rule find_matching_uin_skip)
  then have "find_matching_uin detectedName (PList pre) = Inr PNone"
    by (simp add: find_matching_uin_def py_iter_def)
  with a show ?thesis by simp
qed

theorem first_match_without_uin_witness:
  "find_matching_uin ''John''
     (PList [PDict [(''name'', PStr ''Alice''), (''uin'', PStr ''1'')],
             PDict [(''name'', PStr ''John Smith'')],
             PDict [(''name'', PStr ''John Doe''), (''uin'', PStr ''2'')]]) = Inr PNone \<and>
   find_matching_uin ''John''
     (PList [PDict [(''name'', PStr ''John Doe''), (''uin'', PStr ''2'')]]) = Inr (PStr ''2'')"
proof -
  have a: "\<forall>k\<in>set [PDict [(''name'', PStr ''Alice''), (''uin'', PStr ''1'')]].
      wf_entry k \<and> \<not> entry_matches (normalize_name ''John'') k"
    by code_simp
  have b: "wf_entry (PDict [(''name'', PStr ''John Smith'')])"
    by (simp add: wf_entry_def)
  have c: "entry_matches (normalize_name ''John'') (PDict [(''name'', PStr ''John Smith'')])"
    by code_simp
  have d: "map_of [(''name'', PStr ''John Smith'')] ''uin'' = None"
    by simp
  have e: "find_matching_uin ''John''
     (PList [PDict [(''name'', PStr ''John Doe''), (''uin'', PStr ''2'')]]) = Inr (PStr ''2'')"
    by code_simp
  show ?thesis
    using first_match_without_uin [OF a b c d,
      of "[PDict [(''name'', PStr ''John Doe''), (''uin'', PStr ''2'')]]"] e
    by simp
qed

section \<open>Properties of the extractor and of the program\<close>

text \<open>
  Claim C3. When the recognizer returns the spans \<open>spans\<close>, the extractor returns one
  mention for each span labelled PERSON, in the order of the spans, carrying the text and
  the offsets of the span, the label PERSON and the result of the matcher for the text of
  the span on the whole roster; the other spans give nothing, so without PERSON spans the
  result is empty.
\<close>

theorem extract_person_entities_mentions:
  assumes "nlp text = Inr spans"
    and "\<forall>k\<in>set roster. wf_entry k"
  shows "\<exists>ms. extract_person_entities nlp text (PList roster) = Inr ms \<and>
     list_all2
       (\<lambda>s m. \<exists>u. find_matching_uin (ent_text s) (PList roster) = Inr u \<and>
          m = PDict [(''text'', PStr (ent_text s)), (''start'', PInt (start_char s)),
                     (''end'', PInt (end_char s)), (''label'', PStr ''PERSON''), (''uin'', u)])
       (filter (\<lambda>s. ent_label s = ''PERSON'') spans) ms"
proof -
  have "\<And>s :: ent. \<exists>u. find_matching_uin (ent_text s) (PList roster) = Inr u"
    using find_matching_uin_wf[OF assms(2)] by blast
  from ents_loop_mentions[OF this, of spans "[]"] show ?thesis
    by (simp add: extract_person_entities_def assms(1) mention_def)
qed

theorem extract_person_entities_mentions_witness:
  "extract_person_entities
     (\<lambda>t. Inr [\<lparr>ent_text = ''Jane'', start_char = 0, end_char = 4, ent_label = ''PERSON''\<rparr>,
               \<lparr>ent_text = ''Acme'', start_char = 10, end_char = 14, ent_label = ''ORG''\<rparr>])
     (PStr ''Jane left Acme'') (PList [PDict [(''name'', PStr ''Jane''), (''uin'', PStr ''42'')]])
   = Inr [PDict [(''text'', PStr ''Jane''), (''start'', PInt 0), (''end'', PInt 4),
                 (''label'', PStr ''PERSON''), (''uin'', PStr ''42'')]]"
proof -
  let ?nlp = "\<lambda>t :: pyval. (Inr [\<lparr>ent_text = ''Jane'', start_char = 0, end_char = 4, ent_label = ''PERSON''\<rparr>,
               \<lparr>ent_text = ''Acme'', start_char = 10, end_char = 14, ent_label = ''ORG''\<rparr>] :: error + ent list)"
  let ?roster = "[PDict [(''name'', PStr ''Jane''), (''uin'', PStr ''42'')]]"
  have a: "?nlp (PStr ''Jane left Acme'') =
      Inr [\<lparr>ent_text = ''Jane'', start_char = 0, end_char = 4, ent_label = ''PERSON''\<rparr>,
           \<lparr>ent_text = ''Acme'', start_char = 10, end_char = 14, ent_label = ''ORG''\<rparr>]"
    by simp
  have b: "\<forall>k\<in>set ?roster. wf_entry k"
    by (simp add: wf_entry_def)
  have f: "find_matching_uin ''Jane'' (PList ?roster) = Inr (PStr ''42'')"
    by code_simp
  from extract_person_entities_mentions [OF a b] f show ?thesis
    by (auto simp: list_all2_Cons1)
qed

text \<open>
  Claim C7. When the text on standard input is not valid JSON, the program prints one
  error object and nothing else, in particular no entities object, and exits with
  status 1.
\<close>

theorem malformed_json_single_error:
  assumes "loads stdin = Inl (JSONDecodeError msg)"
  shows "main loads nlp stdin = ([PDict [(''error'', PStr (''Invalid JSON input: '' @ msg))]], 1) \<and>
     (\<exists>m. ner_extract env loads stdin = ([PDict [(''error'', PStr m)]], 1))"
proof -
  have a: "main loads nlp' stdin = ([PDict [(''error'', PStr (''Invalid JSON input: '' @ msg))]], 1)"
    for nlp'
    by (simp add: main_def main_try_def assms)
  then have "\<exists>m. ner_extract env loads stdin = ([PDict [(''error'', PStr m)]], 1)"
    by (cases env) (simp_all add: ner_extract_def)
  with a show ?thesis by simp
qed

theorem malformed_json_single_error_witness:
  "main (\<lambda>s. Inl (JSONDecodeError ''Expecting value: line 1 column 1 (char 0)'')) (\<lambda>t. Inr [])
     ''not json'' =
   ([PDict [(''error'', PStr ''Invalid JSON input: Expecting value: line 1 column 1 (char 0)'')]], 1)"
  using malformed_json_single_error
    [of "\<lambda>s. Inl (JSONDecodeError ''Expecting value: line 1 column 1 (char 0)'')" "''not json''"
        "''Expecting value: line 1 column 1 (char 0)''" "\<lambda>t. Inr []" ImportError]
  by simp

text \<open>
  Claim C8, evaluated on the code. Called with an input path and no destination, \<open>main\<close>
  of \<open>sanitize_pdf.py\<close> prints its usage text and exits with status 1; no file is written,
  although the usage text announces that this call overwrites the input in place.
\<close>

theorem sanitize_pdf_main_without_destination:
  "sanitize_pdf_main [prog, input_path] fs =
     ([''Usage: python sanitize_pdf.py <input.pdf> <output.pdf>'',
       ''       python sanitize_pdf.py <input.pdf>  (overwrites in place)''], 1, fs)"
  by (simp add: sanitize_pdf_main_def)

end
